theory Spec2Isabelle
  imports Complex_Main
begin

section \<open>Number model and Python errors\<close>

text \<open>
  A Python float is an IEEE double.  It is modelled by the real number it denotes, and
  an arithmetic operation of the bisection cell and of the grid size is the exact
  operation followed by \<open>double\<close>, rounding to the nearest number with a significand of
  53 bits, ties to the even significand.  The exponent is not bounded: overflow,
  underflow and the non-finite values are outside the model.  \<open>binade x\<close> is the
  exponent \<open>e\<close> with \<open>2 powi e \<le> \<bar>x\<bar>\<close> and \<open>\<bar>x\<bar> < 2 powi (e + 1)\<close>.

  The cells of Euler's method are modelled in exact arithmetic: what is proved of
  them relates values that the program computes by the same operations.

  Python exceptions that a cell can raise are values of the type \<open>error\<close>; a cell
  that can raise returns \<open>error + 'a\<close> with \<open>Inl\<close> for the exception.
\<close>

definition round_half_even :: "real \<Rightarrow> int" where
  "round_half_even z =
     (let f = \<lfloor>z\<rfloor>; r = z - of_int f
      in if r < 1 / 2 then f else if 1 / 2 < r then f + 1 else if even f then f else f + 1)"

definition binade :: "real \<Rightarrow> int" where
  "binade x = \<lfloor>log 2 \<bar>x\<bar>\<rfloor>"

definition double :: "real \<Rightarrow> real" where
  "double x =
     (if x = 0 then 0
      else of_int (round_half_even (x * 2 powi (52 - binade x))) * 2 powi (binade x - 52))"

datatype error = NameError | IndexError | ValueError | ZeroDivisionError

section \<open>BVP.ipynb: shooting by bisection\<close>

text \<open>
  The bisection cell keeps seven variables: the bracket \<open>v0_1, v0_2\<close> with the
  residuals \<open>f_1, f_2\<close>, the last midpoint \<open>v0_mid\<close> with its residual
  \<open>f_mid\<close>, and the counter \<open>iter\<close>.  \<open>v0_mid\<close> is unbound until the loop
  body has run once, hence the option.  The residual
  \<open>projectile_final_height_error(v0, z1)\<close> calls \<open>scipy.integrate.solve_ivp\<close>; it
  is a parameter \<open>residual\<close> of the model.  The sum, the product by 0.5, the product
  \<open>f_mid*f_1\<close> and the product \<open>10*tol\<close> are rounded.
\<close>

record bisect_state =
  v0_1 :: real
  f_1 :: real
  v0_2 :: real
  f_2 :: real
  v0_mid :: "real option"
  f_mid :: real
  iter :: int

text \<open>
  The body of the while loop:
  \<^verbatim>\<open>
    v0_mid = 0.5*(v0_1 + v0_2)
    f_mid = projectile_final_height_error(v0_mid,z1)
    if f_mid*f_1>0:
        v0_1 = v0_mid
        f_1 = f_mid
    else:
        v0_2 = v0_mid
        f_2 = f_mid
    iter = iter+1
  \<close>
\<close>

definition bisect_body :: "(real \<Rightarrow> real) \<Rightarrow> bisect_state \<Rightarrow> bisect_state" where
  "bisect_body residual s =
     (let xmid = double (0.5 * double (v0_1 s + v0_2 s));
          fmid = residual xmid;
          s1 = s\<lparr>v0_mid := Some xmid, f_mid := fmid\<rparr>;
          s2 = (if double (fmid * f_1 s1) > 0
                then s1\<lparr>v0_1 := xmid, f_1 := fmid\<rparr>
                else s1\<lparr>v0_2 := xmid, f_2 := fmid\<rparr>)
      in s2\<lparr>iter := iter s2 + 1\<rparr>)"

text \<open>The loop test \<^verbatim>\<open>abs(f_mid)>tol and iter<max_iter\<close>.\<close>

definition bisect_cond :: "real \<Rightarrow> int \<Rightarrow> bisect_state \<Rightarrow> bool" where
  "bisect_cond tol max_iter s \<longleftrightarrow> \<bar>f_mid s\<bar> > tol \<and> iter s < max_iter"

function bisect_while :: "(real \<Rightarrow> real) \<Rightarrow> real \<Rightarrow> int \<Rightarrow> bisect_state \<Rightarrow> bisect_state" where
  "bisect_while residual tol max_iter s =
     (if bisect_cond tol max_iter s
      then bisect_while residual tol max_iter (bisect_body residual s)
      else s)"
  by pat_completeness auto
termination
  by (relation "measure (\<lambda>(residual, tol, max_iter, s). nat (max_iter - iter s))")
     (auto simp: bisect_cond_def bisect_body_def Let_def)

text \<open>
  The variables as the cell sets them before the loop:
  \<^verbatim>\<open>
    f_1 = projectile_final_height_error(v0_1,z1)
    f_2 = projectile_final_height_error(v0_2,z1)
    iter = 0
    f_mid = 10*tol # Just to ensure that we enter the while loop
  \<close>
\<close>

definition bisect_init :: "(real \<Rightarrow> real) \<Rightarrow> real \<Rightarrow> real \<Rightarrow> real \<Rightarrow> bisect_state" where
  "bisect_init residual x1 x2 tol =
     \<lparr>v0_1 = x1, f_1 = residual x1, v0_2 = x2, f_2 = residual x2,
      v0_mid = None, f_mid = double (10 * tol), iter = 0\<rparr>"

text \<open>
  The whole cell.  After the loop it prints \<open>iter\<close>, \<open>v0_mid\<close> and \<open>f_mid\<close>;
  reading \<open>v0_mid\<close> raises \<open>NameError\<close> when the body never ran.  The cell has
  no other way to fail: it does not look at the signs of \<open>f_1\<close> and \<open>f_2\<close>.
\<close>

definition bisection :: "(real \<Rightarrow> real) \<Rightarrow> real \<Rightarrow> real \<Rightarrow> real \<Rightarrow> int \<Rightarrow> error + bisect_state" where
  "bisection residual x1 x2 tol max_iter =
     (let s = bisect_while residual tol max_iter (bisect_init residual x1 x2 tol)
      in case v0_mid s of None \<Rightarrow> Inl NameError | Some x \<Rightarrow> Inr s)"

section \<open>Solving second order ODEs.ipynb: numpy arrays\<close>

text \<open>
  A numpy array is a nested list of reals: \<open>Num\<close> is a scalar (shape \<open>()\<close>), \<open>Arr\<close>
  an array whose entries are the sub-arrays along its first axis.  numpy arrays are
  rectangular; \<open>has_shape S a\<close> says that \<open>a\<close> is a rectangular array of shape
  \<open>S\<close> with no empty axis.  Arrays with an empty axis of rank above one have no
  representation here; the notebook builds none.
\<close>

datatype ndarray = Num real | Arr "ndarray list"

fun shape :: "ndarray \<Rightarrow> nat list" where
  "shape (Num x) = []"
| "shape (Arr []) = [0]"
| "shape (Arr (a # as)) = Suc (length as) # shape a"

fun has_shape :: "nat list \<Rightarrow> ndarray \<Rightarrow> bool" where
  "has_shape [] (Num x) = True"
| "has_shape (n # S) (Arr as) = (length as = n \<and> 0 < n \<and> (\<forall>a \<in> set as. has_shape S a))"
| "has_shape [] (Arr as) = False"
| "has_shape (n # S) (Num x) = False"

text \<open>An operation with a Python float, applied to every entry (\<^verbatim>\<open>a * dt\<close>, \<^verbatim>\<open>a / m\<close>).\<close>

fun map_nd :: "(real \<Rightarrow> real) \<Rightarrow> ndarray \<Rightarrow> ndarray" where
  "map_nd f (Num x) = Num (f x)"
| "map_nd f (Arr as) = Arr (map (map_nd f) as)"

text \<open>Indexing \<^verbatim>\<open>y[i]\<close> along the first axis; a scalar cannot be indexed.\<close>

fun getitem :: "ndarray \<Rightarrow> nat \<Rightarrow> error + ndarray" where
  "getitem (Num x) i = Inl IndexError"
| "getitem (Arr as) i = (if i < length as then Inr (as ! i) else Inl IndexError)"

text \<open>
  \<^verbatim>\<open>np.array([...])\<close> stacks entries of one shape along a new first axis; entries of
  different shapes are refused (\<open>ValueError\<close>, inhomogeneous shape).
\<close>

definition np_array :: "ndarray list \<Rightarrow> error + ndarray" where
  "np_array as = (if \<forall>a \<in> set as. shape a = shape (hd as) then Inr (Arr as) else Inl ValueError)"

text \<open>
  Broadcasting, as numpy does it for \<^verbatim>\<open>a + b\<close>: the shorter shape is padded with
  ones on its leading side, then the shapes are compared axis by axis; two lengths agree
  when they are equal or one of them is 1.
\<close>

definition pad_shape :: "nat \<Rightarrow> nat list \<Rightarrow> nat list" where
  "pad_shape r S = replicate (r - length S) 1 @ S"

fun pad_nd :: "nat \<Rightarrow> ndarray \<Rightarrow> ndarray" where
  "pad_nd 0 a = a"
| "pad_nd (Suc j) a = Arr [pad_nd j a]"

fun broadcast_dims :: "nat list \<Rightarrow> nat list \<Rightarrow> nat list option" where
  "broadcast_dims [] [] = Some []"
| "broadcast_dims (a # S) (b # T) =
     (if a = b \<or> b = 1 then map_option ((#) a) (broadcast_dims S T)
      else if a = 1 then map_option ((#) b) (broadcast_dims S T)
      else None)"
| "broadcast_dims [] (b # T) = None"
| "broadcast_dims (a # S) [] = None"

definition broadcast_shapes :: "nat list \<Rightarrow> nat list \<Rightarrow> nat list option" where
  "broadcast_shapes S T =
     (let r = max (length S) (length T) in broadcast_dims (pad_shape r S) (pad_shape r T))"

text \<open>
  \<open>broadcast_to R a\<close> repeats \<open>a\<close> up to the shape \<open>R\<close> it broadcasts to: leading axes
  of length 1 are added up to the rank of \<open>R\<close>, then every axis of length 1 that \<open>R\<close>
  has longer is repeated.
\<close>

fun expand :: "nat list \<Rightarrow> ndarray \<Rightarrow> ndarray" where
  "expand [] a = a"
| "expand (n # R) (Arr as) =
     (if length as = n then Arr (map (expand R) as) else Arr (replicate n (expand R (hd as))))"
| "expand (n # R) (Num x) = Num x"

definition broadcast_to :: "nat list \<Rightarrow> ndarray \<Rightarrow> ndarray" where
  "broadcast_to R a = expand R (pad_nd (length R - length (shape a)) a)"

text \<open>Entry by entry sum of two arrays of one shape.\<close>

fun plus_nd :: "ndarray \<Rightarrow> ndarray \<Rightarrow> ndarray"
  and plus_nds :: "ndarray list \<Rightarrow> ndarray list \<Rightarrow> ndarray list" where
  "plus_nd (Num x) (Num y) = Num (x + y)"
| "plus_nd (Arr as) (Arr bs) = Arr (plus_nds as bs)"
| "plus_nd (Num x) (Arr bs) = Num x"
| "plus_nd (Arr as) (Num y) = Num y"
| "plus_nds (a # as) (b # bs) = plus_nd a b # plus_nds as bs"
| "plus_nds [] bs = []"
| "plus_nds (a # as) [] = []"

text \<open>\<^verbatim>\<open>a + b\<close> on arrays: \<open>ValueError\<close> when the shapes do not broadcast.\<close>

definition add_nd :: "ndarray \<Rightarrow> ndarray \<Rightarrow> error + ndarray" where
  "add_nd a b =
     (case broadcast_shapes (shape a) (shape b) of
        None \<Rightarrow> Inl ValueError
      | Some R \<Rightarrow> Inr (plus_nd (broadcast_to R a) (broadcast_to R b)))"

text \<open>
  The assignment \<^verbatim>\<open>y[i] = v\<close> into a row of shape \<open>S\<close>: numpy drops leading axes of
  length 1 that \<open>v\<close> has beyond the rank of the row, then broadcasts \<open>v\<close> to \<open>S\<close>;
  \<open>ValueError\<close> when it does not fit.  The result is the row as stored.
\<close>

fun squeeze_lead :: "nat \<Rightarrow> ndarray \<Rightarrow> ndarray" where
  "squeeze_lead r (Arr [a]) = (if r < length (shape (Arr [a])) then squeeze_lead r a else Arr [a])"
| "squeeze_lead r a = a"

definition setitem :: "nat list \<Rightarrow> ndarray \<Rightarrow> error + ndarray" where
  "setitem S v =
     (let w = squeeze_lead (length S) v
      in if broadcast_shapes S (shape w) = Some S then Inr (broadcast_to S w) else Inl ValueError)"

text \<open>
  What the two steps of \<^verbatim>\<open>y[i+1] = y[i] + d\<close> do to shapes.  \<open>squeeze_shape\<close> is
  \<open>squeeze_lead\<close> on shapes; \<open>row_accepts S T\<close> says that a value of shape \<open>T\<close> can
  be added to a row of shape \<open>S\<close> and the sum stored in such a row.
\<close>

fun squeeze_shape :: "nat \<Rightarrow> nat list \<Rightarrow> nat list" where
  "squeeze_shape r [] = []"
| "squeeze_shape r (n # R) = (if r < Suc (length R) \<and> n = 1 then squeeze_shape r R else n # R)"


text \<open>\<^verbatim>\<open>np.zeros(S)\<close>.\<close>

definition zeros :: "nat list \<Rightarrow> ndarray" where
  "zeros S = broadcast_to S (Num 0)"

section \<open>Solving second order ODEs.ipynb: the oscillator and Euler's method\<close>

text \<open>The notebook's globals \<^verbatim>\<open>m = 1.0\<close> and \<^verbatim>\<open>k = 1.0\<close>.\<close>

definition m :: real where
  "m = 1.0"

definition k :: real where
  "k = 1.0"

text \<open>
  The time grid of the notebook:
  \<^verbatim>\<open>
    N_steps = int(total_t/dt)+1
    time = np.linspace(0,total_t,N_steps)
  \<close>
  The division raises \<open>ZeroDivisionError\<close> for \<open>dt = 0\<close>, and \<^verbatim>\<open>int\<close> truncates
  towards zero.  \<^verbatim>\<open>np.linspace(start, stop, num)\<close> refuses a negative \<open>num\<close>
  (\<open>ValueError\<close>); otherwise it is \<^verbatim>\<open>arange(num) * step + start\<close> with
  \<^verbatim>\<open>step = (stop - start) / (num - 1)\<close>, and the single point \<open>start\<close> for \<open>num = 1\<close>.
\<close>

definition N_steps_of :: "real \<Rightarrow> real \<Rightarrow> error + int" where
  "N_steps_of total_t dt =
     (if dt = 0 then Inl ZeroDivisionError
      else Inr ((let q = double (total_t / dt) in (if 0 \<le> q then \<lfloor>q\<rfloor> else \<lceil>q\<rceil>)) + 1))"

definition linspace :: "real \<Rightarrow> real \<Rightarrow> int \<Rightarrow> error + real list" where
  "linspace start stop num =
     (if num < 0 then Inl ValueError
      else Inr (if num = 1 then [start]
                else map (\<lambda>i. real i * ((stop - start) / real (nat num - 1)) + start)
                       [0..<nat num]))"

text \<open>
  The direct translation of the equations, with one array for \<open>x\<close> and one for \<open>v\<close>:
  \<^verbatim>\<open>
    x = np.zeros(N_steps)
    v = np.zeros(N_steps)
    x[0] = x0
    v[0] = v0
    for i in range(0,N_steps-1):
        x[i+1] = x[i] + v[i] * dt
        v[i+1] = v[i] - (k*x[i]/m) * dt
  \<close>
  \<open>scalar_steps dt r i\<close> runs the \<open>r\<close> iterations that start at index \<open>i\<close>.
  \<^verbatim>\<open>np.zeros\<close> refuses a negative length (\<open>ValueError\<close>), and \<^verbatim>\<open>x[0] = x0\<close> fails
  on an array of length 0 (\<open>IndexError\<close>).
\<close>

fun scalar_steps :: "real \<Rightarrow> nat \<Rightarrow> nat \<Rightarrow> real list \<times> real list \<Rightarrow> real list \<times> real list" where
  "scalar_steps dt 0 i (x, v) = (x, v)"
| "scalar_steps dt (Suc r) i (x, v) =
     (let x' = x[Suc i := x ! i + v ! i * dt];
          v' = v[Suc i := v ! i - (k * x' ! i / m) * dt]
      in scalar_steps dt r (Suc i) (x', v'))"

definition scalar_loop :: "real \<Rightarrow> real \<Rightarrow> real \<Rightarrow> int \<Rightarrow> error + real list \<times> real list" where
  "scalar_loop x0 v0 dt N_steps =
     (if N_steps < 0 then Inl ValueError
      else if N_steps = 0 then Inl IndexError
      else Inr (scalar_steps dt (nat (N_steps - 1)) 0
                  ((replicate (nat N_steps) 0)[0 := x0], (replicate (nat N_steps) 0)[0 := v0])))"

text \<open>
  The right-hand side, one function for every shape of \<open>y\<close>:
  \<^verbatim>\<open>
    def SHO_deriv(y,t):
        x = y[0]
        v = y[1]
        dx = v
        dv = -k*x/m
        return np.array([dx,dv])
  \<close>
\<close>

definition SHO_deriv :: "ndarray \<Rightarrow> real \<Rightarrow> error + ndarray" where
  "SHO_deriv y t =
     (case getitem y 0 of Inl e \<Rightarrow> Inl e | Inr x \<Rightarrow>
      case getitem y 1 of Inl e \<Rightarrow> Inl e | Inr v \<Rightarrow>
        (let dx = v;
             dv = map_nd (\<lambda>e. e / m) (map_nd (\<lambda>e. - k * e) x)
         in np_array [dx, dv]))"

text \<open>
  The generic update loop.  The notebook runs it twice, on rows of shape \<open>[2]\<close> and of
  shape \<open>[2,2]\<close>:
  \<^verbatim>\<open>
    y = np.zeros((N_steps,2))
    y[0] = np.array([x0,v0])
    for i in range(0,N_steps-1):
        y[i+1] = y[i] + SHO_deriv(y[i],time[i]) * dt
  \<close>
  The row shape \<open>S\<close>, the right-hand side \<open>deriv\<close>, the first row \<open>y0\<close>, the array
  \<open>time\<close>, \<open>dt\<close> and \<open>N_steps\<close> are the parameters.  \<open>euler_steps \<dots> r i\<close> runs
  the \<open>r\<close> iterations that start at index \<open>i\<close>; \<^verbatim>\<open>time[i]\<close> raises \<open>IndexError\<close>
  beyond the end of \<open>time\<close>.  The loop checks neither shapes nor the step count: what
  fails, fails inside numpy.
\<close>

fun euler_steps ::
  "(ndarray \<Rightarrow> real \<Rightarrow> error + ndarray) \<Rightarrow> nat list \<Rightarrow> real list \<Rightarrow> real \<Rightarrow> nat \<Rightarrow> nat \<Rightarrow>
   ndarray list \<Rightarrow> error + ndarray list" where
  "euler_steps deriv S time dt 0 i y = Inr y"
| "euler_steps deriv S time dt (Suc r) i y =
     (if length time \<le> i then Inl IndexError
      else case deriv (y ! i) (time ! i) of Inl e \<Rightarrow> Inl e | Inr d \<Rightarrow>
           case add_nd (y ! i) (map_nd (\<lambda>e. e * dt) d) of Inl e \<Rightarrow> Inl e | Inr v \<Rightarrow>
           case setitem S v of Inl e \<Rightarrow> Inl e | Inr row \<Rightarrow>
             euler_steps deriv S time dt r (Suc i) (list_update y (Suc i) row))"

definition euler_loop ::
  "(ndarray \<Rightarrow> real \<Rightarrow> error + ndarray) \<Rightarrow> nat list \<Rightarrow> ndarray \<Rightarrow> real list \<Rightarrow> real \<Rightarrow> int \<Rightarrow>
   error + ndarray list" where
  "euler_loop deriv S y0 time dt N_steps =
     (if N_steps < 0 then Inl ValueError
      else if N_steps = 0 then Inl IndexError
      else case setitem S y0 of Inl e \<Rightarrow> Inl e | Inr row \<Rightarrow>
             euler_steps deriv S time dt (nat (N_steps - 1)) 0
               ((replicate (nat N_steps) (zeros S))[0 := row]))"

text \<open>
  The slice \<^verbatim>\<open>a[:, j]\<close> of an array of rank two: entry \<open>j\<close> of every row.  For a state
  of shape \<open>[2,2]\<close> it is the position and velocity of coordinate \<open>j\<close>.
\<close>

fun column :: "nat \<Rightarrow> ndarray \<Rightarrow> ndarray" where
  "column j (Num x) = Num x"
| "column j (Arr rows) = Arr (map (\<lambda>r. case r of Num x \<Rightarrow> Num x | Arr es \<Rightarrow> es ! j) rows)"

text \<open>
  A right-hand side works entry by entry over the last axis when, on a state of shape
  \<open>[2,2]\<close>, it returns a value of that shape whose slice \<open>j\<close> is what it returns on the
  slice \<open>j\<close> of the state alone.  This is the property of \<open>SHO_deriv\<close> that lets the
  notebook reuse it for the motion in two dimensions.
\<close>

definition elementwise_trailing :: "(ndarray \<Rightarrow> real \<Rightarrow> error + ndarray) \<Rightarrow> bool" where
  "elementwise_trailing deriv \<longleftrightarrow>
     (\<forall>Y t. has_shape [2, 2] Y \<longrightarrow>
        (\<exists>D. deriv Y t = Inr D \<and> has_shape [2, 2] D \<and>
             (\<forall>j<2. deriv (column j Y) t = Inr (column j D))))"

section \<open>Rounding to double\<close>

lemma binade_bounds:
  assumes "x \<noteq> 0"
  shows "2 powi binade x \<le> \<bar>x\<bar>" "\<bar>x\<bar> < 2 powi (binade x + 1)"
proof -
  have pos: "0 < \<bar>x\<bar>" using assms by simp
  have "2 powr (of_int (binade x)) \<le> \<bar>x\<bar> \<and> \<bar>x\<bar> < 2 powr (of_int (binade x) + 1)"
    using floor_log_eq_powr_iff [of "\<bar>x\<bar>" 2 "binade x"] pos by (simp add: binade_def)
  then show "2 powi binade x \<le> \<bar>x\<bar>" "\<bar>x\<bar> < 2 powi (binade x + 1)"
    using powr_real_of_int' [of 2 "binade x"] powr_real_of_int' [of 2 "binade x + 1"]
    by simp_all
qed

lemma binade_eqI:
  assumes "2 powi e \<le> \<bar>x\<bar>" "\<bar>x\<bar> < 2 powi (e + 1)"
  shows "binade x = e"
proof -
  have pos: "0 < \<bar>x\<bar>"
    using assms(1) zero_less_power_int [of "2::real" e] by linarith
  have "2 powr (of_int e) \<le> \<bar>x\<bar> \<and> \<bar>x\<bar> < 2 powr (of_int e + 1)"
    using assms powr_real_of_int' [of 2 e] powr_real_of_int' [of 2 "e + 1"] by simp
  then show ?thesis
    using floor_log_eq_powr_iff [of "\<bar>x\<bar>" 2 e] pos by (simp add: binade_def)
qed

lemma round_half_even_error: "\<bar>of_int (round_half_even z) - z\<bar> \<le> 1 / 2"
  unfolding round_half_even_def Let_def by (auto simp: abs_if) linarith+

lemma round_half_even_of_int [simp]: "round_half_even (of_int n) = n"
  by (simp add: round_half_even_def)

lemma round_half_even_bounds:
  "\<lfloor>z\<rfloor> \<le> round_half_even z" "round_half_even z \<le> \<lfloor>z\<rfloor> + 1"
  by (simp_all add: round_half_even_def Let_def)

lemma round_half_even_minus: "round_half_even (- z) = - round_half_even z"
proof (cases "z \<in> \<int>")
  case True
  then obtain n where "z = of_int n" by (auto elim: Ints_cases)
  then have "- z = of_int (- n)" by simp
  then show ?thesis unfolding \<open>z = of_int n\<close> by (simp only: round_half_even_of_int)
next
  case False
  then have "z \<noteq> of_int \<lfloor>z\<rfloor>"
    by (metis Ints_of_int)
  then have fl: "\<lfloor>- z\<rfloor> = - \<lfloor>z\<rfloor> - 1"
    by (simp add: floor_minus ceiling_altdef)
  show ?thesis
    unfolding round_half_even_def Let_def fl by auto
qed

lemma round_half_even_mono:
  assumes "z \<le> w"
  shows "round_half_even z \<le> round_half_even w"
proof (cases "\<lfloor>z\<rfloor> = \<lfloor>w\<rfloor>")
  case True
  with assms show ?thesis
    unfolding round_half_even_def Let_def by auto
next
  case False
  with assms have "\<lfloor>z\<rfloor> + 1 \<le> \<lfloor>w\<rfloor>"
    using floor_mono [of z w] by linarith
  with round_half_even_bounds(2) [of z] round_half_even_bounds(1) [of w] show ?thesis
    by linarith
qed


lemma powi2_less_iff: "(2::real) powi a < 2 powi c \<longleftrightarrow> a < c"
proof
  assume "(2::real) powi a < 2 powi c"
  show "a < c"
  proof (rule ccontr)
    assume "\<not> a < c"
    then have "(2::real) powi c \<le> 2 powi a"
      by (intro power_int_increasing) simp_all
    with \<open>(2::real) powi a < 2 powi c\<close> show False by linarith
  qed
next
  assume "a < c"
  then show "(2::real) powi a < 2 powi c"
    by (intro power_int_strict_increasing) simp_all
qed


lemma binade_minus [simp]: "binade (- x) = binade x"
  by (simp add: binade_def)

lemma binade_scale:
  assumes "x \<noteq> 0"
  shows "binade (x * 2 powi j) = binade x + j"
proof (rule binade_eqI)
  have "\<bar>x * 2 powi j\<bar> = \<bar>x\<bar> * 2 powi j"
    by (simp add: abs_mult)
  moreover have "2 powi (binade x + j) = 2 powi binade x * (2::real) powi j"
    by (simp add: power_int_add)
  moreover have "2 powi (binade x + j + 1) = 2 powi (binade x + 1) * (2::real) powi j"
    by (simp add: power_int_add)
  ultimately show "2 powi (binade x + j) \<le> \<bar>x * 2 powi j\<bar>"
    "\<bar>x * 2 powi j\<bar> < 2 powi (binade x + j + 1)"
    using binade_bounds [OF assms] by simp_all
qed

lemma scaled_bounds:
  assumes "x \<noteq> 0"
  shows "2 ^ 52 \<le> \<bar>x * 2 powi (52 - binade x)\<bar>" "\<bar>x * 2 powi (52 - binade x)\<bar> < 2 ^ 53"
proof -
  have a: "\<bar>x * 2 powi (52 - binade x)\<bar> = \<bar>x\<bar> * 2 powi (52 - binade x)"
    by (simp add: abs_mult)
  have "2 powi binade x * 2 powi (52 - binade x) = (2::real) powi 52"
    by (simp add: power_int_add [symmetric])
  moreover have "2 powi (binade x + 1) * 2 powi (52 - binade x) = (2::real) powi 53"
    by (simp add: power_int_add [symmetric])
  moreover have "2 powi binade x * 2 powi (52 - binade x) \<le> \<bar>x\<bar> * 2 powi (52 - binade x)"
    using binade_bounds(1) [OF assms] by (intro mult_right_mono) simp_all
  moreover have "\<bar>x\<bar> * 2 powi (52 - binade x) < 2 powi (binade x + 1) * 2 powi (52 - binade x)"
    using binade_bounds(2) [OF assms] by (intro mult_strict_right_mono) simp_all
  ultimately show "2 ^ 52 \<le> \<bar>x * 2 powi (52 - binade x)\<bar>"
    "\<bar>x * 2 powi (52 - binade x)\<bar> < 2 ^ 53"
    unfolding a by simp_all
qed

lemma double_zero [simp]: "double 0 = 0"
  by (simp add: double_def)

lemma double_minus: "double (- x) = - double x"
  by (simp add: double_def round_half_even_minus)

lemma double_eval:
  assumes "2 powi e \<le> \<bar>x\<bar>" "\<bar>x\<bar> < 2 powi (e + 1)"
  shows "double x = of_int (round_half_even (x * 2 powi (52 - e))) * 2 powi (e - 52)"
proof -
  have "x \<noteq> 0"
  proof
    assume "x = 0"
    with assms(1) have "(2::real) powi e \<le> 0" by simp
    moreover have "0 < (2::real) powi e" by simp
    ultimately show False by linarith
  qed
  with binade_eqI [OF assms] show ?thesis by (simp add: double_def)
qed

lemma double_scale: "double (x * 2 powi j) = double x * 2 powi j"
proof (cases "x = 0")
  case True
  then show ?thesis by simp
next
  case False
  have z: "x * 2 powi j * 2 powi (52 - (binade x + j)) = x * 2 powi (52 - binade x)"
    by (simp add: mult.assoc power_int_add [symmetric])
  have e: "2 powi (binade x + j - 52) = 2 powi (binade x - 52) * (2::real) powi j"
    using power_int_add [of "2::real" "binade x - 52" j] by (simp add: algebra_simps)
  have nz: "x * 2 powi j \<noteq> 0"
    using False by simp
  have "double (x * 2 powi j)
          = of_int (round_half_even (x * 2 powi (52 - binade x))) * 2 powi (binade x + j - 52)"
    unfolding double_def binade_scale [OF False] z using nz by (simp only: if_False)
  also have "\<dots> = double x * 2 powi j"
    unfolding e double_def using False by (simp only: if_False mult.assoc)
  finally show ?thesis .
qed

lemma double_half: "double (x / 2) = double x / 2"
  using double_scale [of x "- 1"] by (simp add: power_int_minus field_simps)


lemma of_int_abs_less:
  "\<bar>n\<bar> < 2 ^ 53 \<Longrightarrow> \<bar>real_of_int n\<bar> < 2 ^ 53"
proof -
  assume "\<bar>n\<bar> < 2 ^ 53"
  then have "real_of_int \<bar>n\<bar> < real_of_int (2 ^ 53)"
    by (simp only: of_int_less_iff)
  then show ?thesis by simp
qed

lemma double_of_int:
  assumes "\<bar>n\<bar> < 2 ^ 53"
  shows "double (of_int n) = of_int n"
proof (cases "n = 0")
  case True
  then show ?thesis by simp
next
  case False
  define b where "b = binade (of_int n)"
  have nz: "(of_int n :: real) \<noteq> 0" using False by simp
  have "2 powi b \<le> \<bar>of_int n :: real\<bar>"
    unfolding b_def using nz by (rule binade_bounds)
  also have "\<bar>of_int n :: real\<bar> < 2 powi 53"
    using of_int_abs_less [OF assms] by simp
  finally have "(2::real) powi b < 2 powi 53" .
  then have "b < 53"
    by (simp only: powi2_less_iff)
  define j where "j = nat (52 - b)"
  have j: "52 - b = int j"
    using \<open>b < 53\<close> by (simp add: j_def)
  have "of_int n * 2 powi (52 - b) = (of_int (n * 2 ^ j) :: real)"
    by (simp add: j)
  then have "round_half_even (of_int n * 2 powi (52 - b)) = n * 2 ^ j"
    by (simp only: round_half_even_of_int)
  moreover have "(2::real) ^ j * 2 powi (b - 52) = 1"
  proof -
    have "(2::real) ^ j = 2 powi (52 - b)" by (simp add: j)
    then have "(2::real) ^ j * 2 powi (b - 52) = 2 powi (52 - b) * 2 powi (b - 52)" by simp
    also have "\<dots> = 2 powi ((52 - b) + (b - 52))"
      by (rule power_int_add [symmetric]) simp
    finally show ?thesis by simp
  qed
  ultimately show ?thesis
    using nz by (simp add: double_def b_def [symmetric] mult.assoc)
qed

lemma double_dyadic: "\<bar>n\<bar> < 2 ^ 53 \<Longrightarrow> double (of_int n * 2 powi e) = of_int n * 2 powi e"
  by (simp add: double_scale double_of_int)

lemma double_exact:
  assumes "x * 2 ^ j \<in> \<int>" "\<bar>x\<bar> * 2 ^ j < 2 ^ 53"
  shows "double x = x"
proof -
  from assms(1) obtain n where n: "x * 2 ^ j = of_int n" by (auto elim: Ints_cases)
  have "\<bar>real_of_int n\<bar> = \<bar>x\<bar> * 2 ^ j"
    unfolding n [symmetric] by (simp add: abs_mult)
  with assms(2) have "real_of_int \<bar>n\<bar> < real_of_int (2 ^ 53)"
    by simp
  then have "\<bar>n\<bar> < 2 ^ 53"
    by (simp only: of_int_less_iff)
  moreover have "x = of_int n * 2 powi (- int j)"
    unfolding n [symmetric] by (simp add: power_int_minus)
  ultimately show ?thesis
    using double_dyadic [of n "- int j"] by simp
qed

lemma p53: "2 ^ 53 * 2 powi (b - 52) = (2::real) powi (b + 1)"
proof -
  have "(2::real) powi (53 + (b - 52)) = 2 powi 53 * 2 powi (b - 52)"
    by (rule power_int_add) simp
  moreover have "53 + (b - 52) = b + 1" by simp
  ultimately show ?thesis by simp
qed


lemma mantissa_bounds:
  assumes "x \<noteq> 0"
  shows "2 ^ 52 \<le> \<bar>round_half_even (x * 2 powi (52 - binade x))\<bar>"
    "\<bar>round_half_even (x * 2 powi (52 - binade x))\<bar> \<le> 2 ^ 53"
proof -
  define z where "z = x * 2 powi (52 - binade x)"
  have zb: "2 ^ 52 \<le> \<bar>z\<bar>" "\<bar>z\<bar> < 2 ^ 53"
    unfolding z_def using scaled_bounds [OF assms] by simp_all
  have pos: "2 ^ 52 \<le> round_half_even w \<and> round_half_even w \<le> 2 ^ 53"
    if "2 ^ 52 \<le> w" "w < 2 ^ 53" for w
  proof -
    have "round_half_even (of_int (2 ^ 52)) \<le> round_half_even w"
      using that(1) by (intro round_half_even_mono) simp
    moreover have "round_half_even w \<le> round_half_even (of_int (2 ^ 53))"
      using that(2) by (intro round_half_even_mono) simp
    ultimately show ?thesis
      by (simp only: round_half_even_of_int)
  qed
  have "2 ^ 52 \<le> \<bar>round_half_even z\<bar> \<and> \<bar>round_half_even z\<bar> \<le> 2 ^ 53"
  proof (cases "0 \<le> z")
    case True
    with zb pos [of z] show ?thesis by simp
  next
    case False
    with zb pos [of "- z"] show ?thesis
      by (simp add: round_half_even_minus)
  qed
  then show "2 ^ 52 \<le> \<bar>round_half_even (x * 2 powi (52 - binade x))\<bar>"
    "\<bar>round_half_even (x * 2 powi (52 - binade x))\<bar> \<le> 2 ^ 53"
    unfolding z_def by simp_all
qed

lemma double_idem [simp]: "double (double x) = double x"
proof (cases "x = 0")
  case True
  then show ?thesis by simp
next
  case False
  define n where "n = round_half_even (x * 2 powi (52 - binade x))"
  have d: "double x = of_int n * 2 powi (binade x - 52)"
    using False by (simp add: double_def n_def)
  have nb: "\<bar>n\<bar> \<le> 2 ^ 53"
    unfolding n_def using False by (rule mantissa_bounds)
  show ?thesis
  proof (cases "\<bar>n\<bar> < 2 ^ 53")
    case True
    then show ?thesis unfolding d by (rule double_dyadic)
  next
    case False
    with nb have "\<bar>n\<bar> = 2 ^ 53" by simp
    then have "n = 2 ^ 53 \<or> n = - (2 ^ 53)" by linarith
    then have "of_int n * 2 powi (binade x - 52) = (of_int (n div 2 ^ 53) :: real) * 2 powi (binade x + 1)"
      using p53 [of "binade x"] by auto
    moreover have "\<bar>n div 2 ^ 53\<bar> < 2 ^ 53"
      using \<open>n = 2 ^ 53 \<or> n = - (2 ^ 53)\<close> by auto
    ultimately show ?thesis
      unfolding d using double_dyadic [of "n div 2 ^ 53" "binade x + 1"] by simp
  qed
qed

lemma double_pos: "0 < x \<Longrightarrow> 0 < double x"
proof -
  assume x: "0 < x"
  define z where "z = x * 2 powi (52 - binade x)"
  have "0 < z" unfolding z_def using x by simp
  have "2 ^ 52 \<le> \<bar>z\<bar>" unfolding z_def using scaled_bounds(1) [of x] x by simp
  with \<open>0 < z\<close> have "of_int (2 ^ 52) \<le> z" by simp
  then have "round_half_even (of_int (2 ^ 52)) \<le> round_half_even z"
    by (rule round_half_even_mono)
  then have "0 < round_half_even z"
    by (simp only: round_half_even_of_int) simp
  then show ?thesis
    using x by (simp add: double_def z_def zero_less_mult_iff)
qed

lemma double_neg: "x < 0 \<Longrightarrow> double x < 0"
  using double_pos [of "- x"] by (simp add: double_minus)

lemma double_sign [simp]:
  "0 < double x \<longleftrightarrow> 0 < x" "double x < 0 \<longleftrightarrow> x < 0" "double x = 0 \<longleftrightarrow> x = 0"
proof -
  consider "0 < x" | "x = 0" | "x < 0" by linarith
  then have "(0 < double x \<longleftrightarrow> 0 < x) \<and> (double x < 0 \<longleftrightarrow> x < 0) \<and> (double x = 0 \<longleftrightarrow> x = 0)"
  proof cases
    case 1
    from double_pos [OF this] 1 show ?thesis by auto
  next
    case 2
    then show ?thesis by simp
  next
    case 3
    from double_neg [OF this] 3 show ?thesis by auto
  qed
  then show "0 < double x \<longleftrightarrow> 0 < x" "double x < 0 \<longleftrightarrow> x < 0" "double x = 0 \<longleftrightarrow> x = 0"
    by blast+
qed

lemma double_error: "\<bar>double x - x\<bar> \<le> \<bar>x\<bar> / 2 ^ 53"
proof (cases "x = 0")
  case True
  then show ?thesis by simp
next
  case False
  define b where "b = binade x"
  define z where "z = x * 2 powi (52 - b)"
  have x: "z * 2 powi (b - 52) = x"
    unfolding z_def using power_int_add [of "2::real" "52 - b" "b - 52"] by (simp add: mult.assoc)
  have d: "double x = of_int (round_half_even z) * 2 powi (b - 52)"
    using False by (simp add: double_def z_def b_def)
  have "double x - x = of_int (round_half_even z) * 2 powi (b - 52) - z * 2 powi (b - 52)"
    by (simp only: d x)
  then have "double x - x = (of_int (round_half_even z) - z) * 2 powi (b - 52)"
    by (simp only: left_diff_distrib)
  then have "\<bar>double x - x\<bar> = \<bar>of_int (round_half_even z) - z\<bar> * 2 powi (b - 52)"
    by (simp add: abs_mult)
  also have "\<dots> \<le> 1 / 2 * 2 powi (b - 52)"
    using round_half_even_error [of z] by (intro mult_right_mono) simp_all
  also have "\<dots> = 2 powi b / 2 ^ 53"
    using power_int_add [of "2::real" "b" "- 53"] power_int_add [of "2::real" "b - 52" "- 1"]
    by (simp add: power_int_minus field_simps)
  also have "\<dots> \<le> \<bar>x\<bar> / 2 ^ 53"
    using binade_bounds(1) [OF False] by (simp add: b_def divide_right_mono)
  finally show ?thesis .
qed




text \<open>The doubles that the literals of the notebooks denote.\<close>

lemma double_0_1: "double 0.1 = 3602879701896397 / 2 ^ 55"
  by (subst double_eval [of "- 4"]) (simp_all add: round_half_even_def Let_def)

lemma double_0_3: "double 0.3 = 5404319552844595 / 2 ^ 54"
  by (subst double_eval [of "- 2"]) (simp_all add: round_half_even_def Let_def)

lemma double_0_01: "double 0.01 = 5764607523034235 / 2 ^ 59"
  by (subst double_eval [of "- 7"]) (simp_all add: round_half_even_def Let_def)


section \<open>Bisection: one iteration\<close>

lemma midpoint_double: "double (double y / 2) = double y / 2"
  by (simp add: double_half)

lemma bisect_body_unfold:
  "bisect_body residual s =
     (let xmid = double (v0_1 s + v0_2 s) / 2; fmid = residual xmid
      in (if fmid * f_1 s > 0
          then s\<lparr>v0_1 := xmid, f_1 := fmid\<rparr>
          else s\<lparr>v0_2 := xmid, f_2 := fmid\<rparr>)
           \<lparr>v0_mid := Some xmid, f_mid := fmid, iter := iter s + 1\<rparr>)"
  by (simp add: bisect_body_def Let_def midpoint_double)

lemma bisect_body_iter [simp]: "iter (bisect_body residual s) = iter s + 1"
  by (simp add: bisect_body_unfold Let_def)

lemma bisect_body_mid [simp]:
  "v0_mid (bisect_body residual s) = Some (double (v0_1 s + v0_2 s) / 2)"
  "f_mid (bisect_body residual s) = residual (double (v0_1 s + v0_2 s) / 2)"
  by (simp_all add: bisect_body_unfold Let_def)

declare bisect_while.simps [simp del]

lemma bisect_while_funpow:
  "\<exists>n. bisect_while residual tol max_iter s = (bisect_body residual ^^ n) s
     \<and> (\<forall>j<n. bisect_cond tol max_iter ((bisect_body residual ^^ j) s))
     \<and> \<not> bisect_cond tol max_iter ((bisect_body residual ^^ n) s)"
proof (induction residual tol max_iter s rule: bisect_while.induct)
  case (1 residual tol max_iter s)
  show ?case
  proof (cases "bisect_cond tol max_iter s")
    case False
    then have "bisect_while residual tol max_iter s = (bisect_body residual ^^ 0) s"
      by (simp add: bisect_while.simps)
    with False show ?thesis
      by (intro exI [of _ 0]) simp
  next
    case True
    from "1.IH" [OF True] obtain n where
      n: "bisect_while residual tol max_iter (bisect_body residual s)
            = (bisect_body residual ^^ n) (bisect_body residual s)"
         "\<forall>j<n. bisect_cond tol max_iter ((bisect_body residual ^^ j) (bisect_body residual s))"
         "\<not> bisect_cond tol max_iter ((bisect_body residual ^^ n) (bisect_body residual s))"
      by blast
    have "bisect_while residual tol max_iter s = (bisect_body residual ^^ Suc n) s"
      using True n(1) by (simp add: bisect_while.simps [of residual tol max_iter s] funpow_swap1)
    moreover have "bisect_cond tol max_iter ((bisect_body residual ^^ j) s)" if "j < Suc n" for j
    proof (cases j)
      case 0
      with True show ?thesis by simp
    next
      case (Suc i)
      with that n(2) show ?thesis by (simp add: funpow_swap1)
    qed
    moreover have "\<not> bisect_cond tol max_iter ((bisect_body residual ^^ Suc n) s)"
      using n(3) by (simp add: funpow_swap1)
    ultimately show ?thesis by blast
  qed
qed

lemma iter_funpow [simp]: "iter ((bisect_body residual ^^ n) s) = iter s + int n"
  by (induction n) simp_all











lemma sentinel_exceeds_tol:
  assumes "0 < tol"
  shows "tol < \<bar>double (10 * tol)\<bar>"
proof -
  have "\<bar>double (10 * tol) - 10 * tol\<bar> \<le> \<bar>10 * tol\<bar> / 2 ^ 53"
    by (rule double_error)
  with assms show ?thesis by (simp add: abs_if split: if_splits)
qed

lemma bisect_enters_loop:
  "0 < tol \<Longrightarrow> 1 \<le> max_iter \<Longrightarrow> bisect_cond tol max_iter (bisect_init residual x1 x2 tol)"
  by (simp add: bisect_cond_def bisect_init_def sentinel_exceeds_tol)

lemma bisect_while_init:
  assumes "0 < tol" "1 \<le> max_iter"
  shows "\<exists>n. bisect_while residual tol max_iter (bisect_init residual x1 x2 tol)
               = bisect_body residual ((bisect_body residual ^^ n) (bisect_init residual x1 x2 tol))
           \<and> (\<forall>j \<le> n. bisect_cond tol max_iter ((bisect_body residual ^^ j) (bisect_init residual x1 x2 tol)))
           \<and> \<not> bisect_cond tol max_iter
                 (bisect_body residual ((bisect_body residual ^^ n) (bisect_init residual x1 x2 tol)))"
proof -
  obtain n where n:
    "bisect_while residual tol max_iter (bisect_init residual x1 x2 tol)
       = (bisect_body residual ^^ n) (bisect_init residual x1 x2 tol)"
    "\<forall>j<n. bisect_cond tol max_iter ((bisect_body residual ^^ j) (bisect_init residual x1 x2 tol))"
    "\<not> bisect_cond tol max_iter ((bisect_body residual ^^ n) (bisect_init residual x1 x2 tol))"
    using bisect_while_funpow by blast
  have "n \<noteq> 0"
    using n(3) bisect_enters_loop [OF assms] by (cases n) auto
  then obtain n' where "n = Suc n'"
    by (cases n) auto
  with n show ?thesis
    by (intro exI [of _ n']) (simp add: less_Suc_eq_le)
qed

lemma bisection_runs_once:
  assumes "0 < tol" "1 \<le> max_iter"
  shows "\<exists>n. bisection residual x1 x2 tol max_iter
               = Inr (bisect_body residual ((bisect_body residual ^^ n) (bisect_init residual x1 x2 tol)))
           \<and> bisect_while residual tol max_iter (bisect_init residual x1 x2 tol)
               = bisect_body residual ((bisect_body residual ^^ n) (bisect_init residual x1 x2 tol))"
proof -
  from bisect_while_init [OF assms] obtain n where
    "bisect_while residual tol max_iter (bisect_init residual x1 x2 tol)
       = bisect_body residual ((bisect_body residual ^^ n) (bisect_init residual x1 x2 tol))"
    by blast
  then show ?thesis
    by (intro exI [of _ n]) (simp add: bisection_def Let_def)
qed

lemma bisect_while_enter:
  "0 < tol \<Longrightarrow> 1 \<le> max_iter \<Longrightarrow>
   bisect_while residual tol max_iter (bisect_init residual x1 x2 tol)
     = bisect_while residual tol max_iter (bisect_body residual (bisect_init residual x1 x2 tol))"
  using bisect_enters_loop [of tol max_iter residual x1 x2]
  by (subst bisect_while.simps) simp



lemma iter_init [simp]: "iter (bisect_init residual x1 x2 tol) = 0"
  by (simp add: bisect_init_def)

text \<open>
  The notebook's own run.  The residual of the projectile is \<open>10 * v0 - 490.5\<close> in exact
  arithmetic (the height \<open>v0 * t - g * t\<^sup>2 / 2\<close> at \<open>t = 10\<close> with \<open>g = 9.81\<close>, minus the
  target 0).  On the bracket \<open>(0, 50)\<close> with \<open>tol = 1e-3\<close> and \<open>max_iter = 100\<close> the cell
  stops after 18 iterations at \<open>v0_mid = 6429075 / 131072\<close>, the number the notebook
  prints as 49.049949645996094.  No sum of this run is rounded.
\<close>

lemmas double_exact_20 = double_exact [where j = 20]


section \<open>Bisection: the claims\<close>



text \<open>
  Claim C3 says that a bracket whose two residuals have the same strict sign is refused
  with \<open>InvalidBracket\<close> before any further residual evaluation.  The cell has no such
  test.  With the projectile's residual \<open>10 * v0 - 490.5\<close> on the bracket \<open>(50, 60)\<close>,
  where both residuals are positive, and a budget of three iterations it runs all three,
  evaluates the residual three more times and returns.
\<close>

theorem bisection_same_sign_counterexample:
  "0 < (10 * 50 - 490.5 :: real) \<and> 0 < (10 * 60 - 490.5 :: real) \<and>
   bisection (\<lambda>v. 10 * v - 490.5) 50 60 (1 / 1000) 3 =
     Inr \<lparr>v0_1 = 235 / 4, f_1 = 97, v0_2 = 60, f_2 = 219 / 2,
          v0_mid = Some (235 / 4), f_mid = 97, iter = 3\<rparr>"
  unfolding bisection_def
  by (subst bisect_while_enter)
     (simp_all add: bisect_init_def bisect_body_unfold bisect_cond_def Let_def
        bisect_while.simps double_exact_20)

text \<open>
  Claim C3, as the cell behaves: a bracket whose residuals have the same strict sign is
  accepted like any other.  With \<open>tol > 0\<close> and \<open>max_iter \<ge> 1\<close> the cell returns
  normally after at least one iteration, that is after at least one residual evaluation
  beyond the two at the endpoints.
\<close>

theorem bisection_no_bracket_check:
  assumes "0 < residual x1 * residual x2" "0 < tol" "1 \<le> max_iter"
  shows "\<exists>r. bisection residual x1 x2 tol max_iter = Inr r \<and> 1 \<le> iter r"
proof -
  from bisection_runs_once [OF assms(2,3)] obtain n where
    "bisection residual x1 x2 tol max_iter
       = Inr (bisect_body residual ((bisect_body residual ^^ n) (bisect_init residual x1 x2 tol)))"
    by blast
  then show ?thesis by simp
qed

theorem bisection_no_bracket_check_witness:
  "(0::real) < (10 * 50 - 490.5) * (10 * 60 - 490.5) \<and> (0::real) < 1 / 1000 \<and> (1::int) \<le> 3 \<and>
   (\<exists>r. bisection (\<lambda>v. 10 * v - 490.5) 50 60 (1 / 1000) 3 = Inr r \<and> 1 \<le> iter r)"
  using bisection_no_bracket_check [of "\<lambda>v. 10 * v - 490.5" 50 60 "1 / 1000" 3] by simp














section \<open>Arrays and shapes\<close>

lemma shape_has_shape: "has_shape S a \<Longrightarrow> shape a = S"
proof (induction S arbitrary: a)
  case Nil
  then show ?case by (cases a) simp_all
next
  case (Cons n S)
  then obtain as where a: "a = Arr as" by (cases a) simp_all
  with Cons.prems obtain b bs where as: "as = b # bs" by (cases as) auto
  with a Cons show ?case by simp
qed


lemma pad_shape_same [simp]: "pad_shape (length S) S = S"
  by (simp add: pad_shape_def)

lemma broadcast_dims_same: "broadcast_dims S S = Some S"
  by (induction S) simp_all

lemma broadcast_shapes_same: "broadcast_shapes S S = Some S"
  by (simp add: broadcast_shapes_def broadcast_dims_same)

lemma expand_same: "has_shape S a \<Longrightarrow> expand S a = a"
proof (induction S arbitrary: a)
  case Nil
  then show ?case by simp
next
  case (Cons n S)
  then obtain as where a: "a = Arr as" by (cases a) simp_all
  have "map (expand S) as = as"
    using Cons a by (intro map_idI) simp
  then show ?case using Cons.prems a by simp
qed

lemma broadcast_to_same: "has_shape S a \<Longrightarrow> broadcast_to S a = a"
  by (simp add: broadcast_to_def shape_has_shape expand_same)

lemma plus_nds_zip: "plus_nds as bs = map (\<lambda>(a, b). plus_nd a b) (zip as bs)"
proof (induction as arbitrary: bs)
  case Nil
  then show ?case by simp
next
  case (Cons a as)
  then show ?case by (cases bs) simp_all
qed

lemma has_shape_plus: "has_shape S a \<Longrightarrow> has_shape S b \<Longrightarrow> has_shape S (plus_nd a b)"
proof (induction S arbitrary: a b)
  case Nil
  then show ?case by (cases a; cases b) simp_all
next
  case (Cons n S)
  then obtain as bs where ab: "a = Arr as" "b = Arr bs"
    by (cases a; cases b) simp_all
  with Cons show ?case
    by (auto simp: plus_nds_zip elim!: in_set_zipE)
qed

lemma has_shape_map_nd: "has_shape S a \<Longrightarrow> has_shape S (map_nd f a)"
proof (induction S arbitrary: a)
  case Nil
  then show ?case by (cases a) simp_all
next
  case (Cons n S)
  then show ?case by (cases a) simp_all
qed


lemma squeeze_shape_same [simp]: "squeeze_shape (length S) S = S"
  by (cases S) simp_all

lemma squeeze_lead_same: "has_shape S a \<Longrightarrow> squeeze_lead (length S) a = a"
proof (cases "(length S, a)" rule: squeeze_lead.cases)
  case (1 r b)
  assume "has_shape S a"
  then have "shape a = S" by (rule shape_has_shape)
  with 1 show ?thesis by simp
qed simp_all

lemma add_nd_same: "has_shape S a \<Longrightarrow> has_shape S b \<Longrightarrow> add_nd a b = Inr (plus_nd a b)"
  by (simp add: add_nd_def shape_has_shape broadcast_shapes_same broadcast_to_same)

lemma setitem_same: "has_shape S v \<Longrightarrow> setitem S v = Inr v"
  by (simp add: setitem_def squeeze_lead_same shape_has_shape broadcast_shapes_same broadcast_to_same)

section \<open>Broadcasting in general\<close>

















section \<open>The Euler loop on states of one shape\<close>

lemma euler_steps_run:
  assumes pres: "\<forall>y t. has_shape S y \<longrightarrow> (\<exists>d. deriv y t = Inr d \<and> has_shape S d)"
  shows "i + r < length y \<Longrightarrow> i + r \<le> length time \<Longrightarrow> has_shape S (y ! i) \<Longrightarrow>
    \<exists>y'. euler_steps deriv S time dt r i y = Inr y' \<and> length y' = length y
         \<and> (\<forall>j \<le> i. y' ! j = y ! j)
         \<and> (\<forall>j. i \<le> j \<and> j < i + r \<longrightarrow>
               (\<exists>d. deriv (y' ! j) (time ! j) = Inr d \<and> has_shape S d \<and> has_shape S (y' ! j)
                    \<and> y' ! Suc j = plus_nd (y' ! j) (map_nd (\<lambda>e. e * dt) d)))"
proof (induction r arbitrary: i y)
  case 0
  then show ?case by auto
next
  case (Suc r)
  from pres Suc.prems(3) obtain d where d: "deriv (y ! i) (time ! i) = Inr d" "has_shape S d"
    by blast
  define v where "v = plus_nd (y ! i) (map_nd (\<lambda>e. e * dt) d)"
  have hv: "has_shape S v"
    unfolding v_def using Suc.prems(3) d(2) by (intro has_shape_plus has_shape_map_nd)
  have add: "add_nd (y ! i) (map_nd (\<lambda>e. e * dt) d) = Inr v"
    unfolding v_def using Suc.prems(3) d(2) by (intro add_nd_same has_shape_map_nd)
  define y1 where "y1 = list_update y (Suc i) v"
  have unfold: "euler_steps deriv S time dt (Suc r) i y = euler_steps deriv S time dt r (Suc i) y1"
    using Suc.prems(2) d(1) add setitem_same [OF hv] by (simp add: y1_def)
  have "Suc i + r < length y1" "Suc i + r \<le> length time" "has_shape S (y1 ! Suc i)"
    using Suc.prems hv by (simp_all add: y1_def)
  from Suc.IH [OF this] obtain y' where y':
    "euler_steps deriv S time dt r (Suc i) y1 = Inr y'" "length y' = length y1"
    "\<forall>j \<le> Suc i. y' ! j = y1 ! j"
    "\<forall>j. Suc i \<le> j \<and> j < Suc i + r \<longrightarrow>
         (\<exists>d. deriv (y' ! j) (time ! j) = Inr d \<and> has_shape S d \<and> has_shape S (y' ! j)
              \<and> y' ! Suc j = plus_nd (y' ! j) (map_nd (\<lambda>e. e * dt) d))"
    by blast
  have keep: "y' ! j = y ! j" if "j \<le> i" for j
    using that y'(3) by (simp add: y1_def)
  have next_row: "y' ! Suc i = v"
    using y'(3) Suc.prems(1) by (simp add: y1_def)
  have here: "\<exists>d. deriv (y' ! i) (time ! i) = Inr d \<and> has_shape S d \<and> has_shape S (y' ! i)
                 \<and> y' ! Suc i = plus_nd (y' ! i) (map_nd (\<lambda>e. e * dt) d)"
    using d Suc.prems(3) keep [of i] next_row by (simp add: v_def)
  have all: "\<exists>d. deriv (y' ! j) (time ! j) = Inr d \<and> has_shape S d \<and> has_shape S (y' ! j)
                 \<and> y' ! Suc j = plus_nd (y' ! j) (map_nd (\<lambda>e. e * dt) d)"
    if "i \<le> j" "j < i + Suc r" for j
  proof (cases "j = i")
    case True
    with here show ?thesis by simp
  next
    case False
    with that have "Suc i \<le> j \<and> j < Suc i + r" by simp
    with y'(4) show ?thesis by blast
  qed
  show ?case
    using unfold y'(1,2) keep all by (intro exI [of _ y']) (simp add: y1_def)
qed

lemma euler_loop_run:
  assumes "has_shape S y0"
    and "\<forall>y t. has_shape S y \<longrightarrow> (\<exists>d. deriv y t = Inr d \<and> has_shape S d)"
    and "n \<le> length time"
  shows "\<exists>ys. euler_loop deriv S y0 time dt (int n + 1) = Inr ys \<and> length ys = n + 1 \<and> ys ! 0 = y0
           \<and> (\<forall>i<n. \<exists>d. deriv (ys ! i) (time ! i) = Inr d \<and> has_shape S d \<and> has_shape S (ys ! i)
                      \<and> ys ! (i + 1) = plus_nd (ys ! i) (map_nd (\<lambda>e. e * dt) d))"
proof -
  define y where "y = list_update (replicate (Suc n) (zeros S)) 0 y0"
  have loop: "euler_loop deriv S y0 time dt (int n + 1) = euler_steps deriv S time dt n 0 y"
    using setitem_same [OF assms(1)] by (simp add: euler_loop_def y_def nat_add_distrib)
  have "0 + n < length y" "0 + n \<le> length time" "has_shape S (y ! 0)"
    using assms by (simp_all add: y_def)
  from euler_steps_run [OF assms(2) this, of dt] obtain y' where
    "euler_steps deriv S time dt n 0 y = Inr y'" "length y' = length y"
    "\<forall>j \<le> 0. y' ! j = y ! j"
    "\<forall>j. 0 \<le> j \<and> j < 0 + n \<longrightarrow>
         (\<exists>d. deriv (y' ! j) (time ! j) = Inr d \<and> has_shape S d \<and> has_shape S (y' ! j)
              \<and> y' ! Suc j = plus_nd (y' ! j) (map_nd (\<lambda>e. e * dt) d))"
    by blast
  with loop show ?thesis
    by (intro exI [of _ y']) (simp add: y_def)
qed

section \<open>The time grid\<close>

text \<open>
  The quotient \<open>total_t / dt\<close> is rounded to a double before \<^verbatim>\<open>int\<close> truncates it.
  With the notebook's \<open>total_t = 10\<close> and \<open>dt = 0.01\<close> the quotient rounds to 1000 and
  there are 1001 grid points.  The rounding can land below the next integer: with
  \<open>total_t = 0.3\<close> and \<open>dt = 0.1\<close> the quotient is the double just below 3 and there are
  3 grid points, not 4.
\<close>

lemma double_2: "double 2 = 2"
  using double_of_int [of 2] by simp

lemma quotient_10_0_01: "double (10 / (5764607523034235 / 2 ^ 59)) = 1000"
  by (subst double_eval [of 9]) (simp_all add: round_half_even_def Let_def)

lemma N_steps_notebook: "N_steps_of 10 (double 0.01) = Inr 1001"
  unfolding double_0_01 N_steps_of_def quotient_10_0_01 by simp

lemma quotient_0_3_0_1:
  "double (5404319552844595 / 2 ^ 54 / (3602879701896397 / 2 ^ 55)) = 6755399441055743 / 2 ^ 51"
  by (subst double_eval [of 1]) (simp_all add: round_half_even_def Let_def)

lemma N_steps_rounded_quotient: "N_steps_of (double 0.3) (double 0.1) = Inr 3"
  unfolding double_0_3 double_0_1 N_steps_of_def quotient_0_3_0_1 by simp

lemma notebook_grid:
  assumes "0 < dt" "total_t = real n * dt" "n < 2 ^ 53"
  shows "N_steps_of total_t dt = Inr (int n + 1)"
    and "\<exists>time. linspace 0 total_t (int n + 1) = Inr time \<and> length time = n + 1
           \<and> (\<forall>i \<le> n. time ! i = 0 + real i * dt)"
proof -
  have "int n < int (2 ^ 53)"
    using assms(3) by (simp only: of_nat_less_iff)
  then have "\<bar>int n\<bar> < 2 ^ 53"
    by (simp only: of_nat_power of_nat_numeral abs_of_nat)
  then have "double (real n) = real n"
    using double_of_int [of "int n"] by simp
  with assms(1,2) show "N_steps_of total_t dt = Inr (int n + 1)"
    by (simp add: N_steps_of_def Let_def)
  show "\<exists>time. linspace 0 total_t (int n + 1) = Inr time \<and> length time = n + 1
           \<and> (\<forall>i \<le> n. time ! i = 0 + real i * dt)"
  proof (cases "n = 0")
    case True
    with assms(1,2) show ?thesis by (simp add: linspace_def)
  next
    case False
    have "nat (int n + 1) = Suc n" by simp
    with False assms(1,2) show ?thesis
      by (simp add: linspace_def less_Suc_eq_le [symmetric] del: upt_Suc)
  qed
qed

section \<open>The oscillator\<close>

lemma has_shape_pair: "has_shape (2 # S) y \<longleftrightarrow> (\<exists>a b. y = Arr [a, b] \<and> has_shape S a \<and> has_shape S b)"
proof (cases y)
  case (Num x)
  then show ?thesis by simp
next
  case (Arr as)
  show ?thesis
  proof
    assume "has_shape (2 # S) y"
    with Arr have "length as = Suc (Suc 0)" "\<forall>a \<in> set as. has_shape S a" by simp_all
    then obtain a b where "as = [a, b]" by (auto simp: length_Suc_conv)
    with Arr \<open>\<forall>a \<in> set as. has_shape S a\<close> show "\<exists>a b. y = Arr [a, b] \<and> has_shape S a \<and> has_shape S b"
      by simp
  next
    assume "\<exists>a b. y = Arr [a, b] \<and> has_shape S a \<and> has_shape S b"
    then show "has_shape (2 # S) y" by auto
  qed
qed

lemma has_shape_scalar: "has_shape [] y \<longleftrightarrow> (\<exists>x. y = Num x)"
  by (cases y) simp_all

lemma SHO_deriv_pair:
  "has_shape S a \<Longrightarrow> has_shape S b \<Longrightarrow>
   SHO_deriv (Arr [a, b]) t = Inr (Arr [b, map_nd (\<lambda>e. e / m) (map_nd ((*) (- k)) a)])"
  by (simp add: SHO_deriv_def np_array_def Let_def shape_has_shape has_shape_map_nd)

lemma SHO_deriv_shape:
  "has_shape (2 # S) y \<Longrightarrow> \<exists>d. SHO_deriv y t = Inr d \<and> has_shape (2 # S) d"
  by (auto simp: has_shape_pair SHO_deriv_pair has_shape_map_nd)

section \<open>Euler's method: the claims\<close>

text \<open>
  Claim C1.  Let the right-hand side return a value of the state's shape on every state
  of that shape, and let \<open>time\<close> hold the grid \<open>t0 + i * dt\<close>, as the notebook's
  \<open>linspace\<close> grid does when \<open>total_t\<close> is \<open>n\<close> steps of \<open>dt\<close> (\<open>notebook_grid\<close>).  Then
  the loop with \<open>n\<close> steps, that is \<open>N_steps = n + 1\<close>, returns a trajectory of
  \<open>n + 1\<close> rows whose row 0 is \<open>y0\<close>, and for every \<open>i < n\<close> row \<open>i + 1\<close> is row \<open>i\<close>
  plus \<open>dt\<close> times the derivative evaluated at row \<open>i\<close> and at the time \<open>t0 + i * dt\<close>,
  the left end of the step.
\<close>

theorem euler_trajectory:
  assumes "has_shape S y0"
    and "\<forall>y t. has_shape S y \<longrightarrow> (\<exists>d. deriv y t = Inr d \<and> has_shape S d)"
    and "n \<le> length time"
    and "\<forall>i<n. time ! i = t0 + real i * dt"
  shows "\<exists>ys. euler_loop deriv S y0 time dt (int n + 1) = Inr ys \<and> length ys = n + 1 \<and> ys ! 0 = y0
           \<and> (\<forall>i<n. \<exists>d. deriv (ys ! i) (t0 + real i * dt) = Inr d
                      \<and> add_nd (ys ! i) (map_nd (\<lambda>e. e * dt) d) = Inr (ys ! (i + 1)))"
proof -
  from euler_loop_run [OF assms(1-3), of dt] obtain ys where ys:
    "euler_loop deriv S y0 time dt (int n + 1) = Inr ys" "length ys = n + 1" "ys ! 0 = y0"
    "\<forall>i<n. \<exists>d. deriv (ys ! i) (time ! i) = Inr d \<and> has_shape S d \<and> has_shape S (ys ! i)
              \<and> ys ! (i + 1) = plus_nd (ys ! i) (map_nd (\<lambda>e. e * dt) d)"
    by blast
  have "\<exists>d. deriv (ys ! i) (t0 + real i * dt) = Inr d
           \<and> add_nd (ys ! i) (map_nd (\<lambda>e. e * dt) d) = Inr (ys ! (i + 1))" if "i < n" for i
  proof -
    from ys(4) that obtain d where d: "deriv (ys ! i) (time ! i) = Inr d" "has_shape S d"
      "has_shape S (ys ! i)" "ys ! (i + 1) = plus_nd (ys ! i) (map_nd (\<lambda>e. e * dt) d)"
      by blast
    have "add_nd (ys ! i) (map_nd (\<lambda>e. e * dt) d) = Inr (ys ! (i + 1))"
      using d(2,3,4) by (simp add: add_nd_same has_shape_map_nd)
    with d(1) assms(4) that show ?thesis by simp
  qed
  with ys(1-3) show ?thesis by blast
qed

theorem euler_trajectory_witness:
  "has_shape [2] (Arr [Num 1, Num 0]) \<and> N_steps_of (2 / 100) (1 / 100) = Inr 3
   \<and> linspace 0 (2 / 100) 3 = Inr [0, 1 / 100, 2 / 100]
   \<and> (\<exists>ys. euler_loop SHO_deriv [2] (Arr [Num 1, Num 0]) [0, 1 / 100, 2 / 100] (1 / 100) 3 = Inr ys
          \<and> length ys = 3 \<and> ys ! 0 = Arr [Num 1, Num 0]
          \<and> (\<exists>d. SHO_deriv (ys ! 1) (1 / 100) = Inr d
                 \<and> add_nd (ys ! 1) (map_nd (\<lambda>e. e * (1 / 100)) d) = Inr (ys ! 2)))"
proof -
  have grid: "linspace 0 (2 / 100) 3 = Inr [0, 1 / 100, 2 / 100]"
    by (simp add: linspace_def upt_rec)
  have steps: "N_steps_of (2 / 100) (1 / 100) = Inr 3"
    by (simp add: N_steps_of_def Let_def double_2)
  have h1: "has_shape [2] (Arr [Num 1, Num 0])" by simp
  have h2: "\<forall>y t. has_shape [2] y \<longrightarrow> (\<exists>d. SHO_deriv y t = Inr d \<and> has_shape [2] d)"
    using SHO_deriv_shape [of "[]"] by blast
  have h3: "2 \<le> length [0, 1 / 100, 2 / 100 :: real]" by simp
  have h4: "\<forall>i<2. [0, 1 / 100, 2 / 100] ! i = 0 + real i * (1 / 100)"
    by (simp add: less_Suc_eq numeral_2_eq_2)
  from euler_trajectory [OF h1 h2 h3 h4] obtain ys where
    "euler_loop SHO_deriv [2] (Arr [Num 1, Num 0]) [0, 1 / 100, 2 / 100] (1 / 100) (int 2 + 1) = Inr ys"
    "length ys = 2 + 1" "ys ! 0 = Arr [Num 1, Num 0]"
    "\<forall>i<2. \<exists>d. SHO_deriv (ys ! i) (0 + real i * (1 / 100)) = Inr d
             \<and> add_nd (ys ! i) (map_nd (\<lambda>e. e * (1 / 100)) d) = Inr (ys ! (i + 1))"
    by blast
  moreover from this(4) have "\<exists>d. SHO_deriv (ys ! 1) (1 / 100) = Inr d
             \<and> add_nd (ys ! 1) (map_nd (\<lambda>e. e * (1 / 100)) d) = Inr (ys ! 2)"
    by (auto dest!: spec [of _ 1] simp: numeral_2_eq_2)
  ultimately show ?thesis using grid steps by simp
qed

section \<open>The scalar loop and the vector loop\<close>

lemma has_shape_vec2: "has_shape [2] y \<longleftrightarrow> (\<exists>a b. y = Arr [Num a, Num b])"
  by (auto simp: has_shape_pair has_shape_scalar)

lemma SHO_deriv_vec2:
  "SHO_deriv (Arr [Num a, Num b]) t = Inr (Arr [Num b, Num (- k * a / m)])"
  using SHO_deriv_pair [of "[]" "Num a" "Num b" t] by simp

lemma add_nd_vec2:
  "add_nd (Arr [Num a, Num b]) (Arr [Num c, Num d]) = Inr (Arr [Num (a + c), Num (b + d)])"
  using add_nd_same [of "[2]" "Arr [Num a, Num b]" "Arr [Num c, Num d]"] by simp

lemma setitem_vec2: "setitem [2] (Arr [Num a, Num b]) = Inr (Arr [Num a, Num b])"
  by (rule setitem_same) simp

lemma steps_agree:
  "length x = L \<Longrightarrow> length v = L \<Longrightarrow> length y = L \<Longrightarrow> i + r < L \<Longrightarrow> i + r \<le> length time \<Longrightarrow>
   \<forall>j \<le> i. y ! j = Arr [Num (x ! j), Num (v ! j)] \<Longrightarrow>
   \<exists>y' x' v'. euler_steps SHO_deriv [2] time dt r i y = Inr y'
       \<and> scalar_steps dt r i (x, v) = (x', v')
       \<and> length y' = L \<and> length x' = L \<and> length v' = L
       \<and> (\<forall>j \<le> i + r. y' ! j = Arr [Num (x' ! j), Num (v' ! j)])"
proof (induction r arbitrary: i x v y)
  case 0
  then show ?case by simp
next
  case (Suc r)
  define x1 where "x1 = list_update x (Suc i) (x ! i + v ! i * dt)"
  define v1 where "v1 = list_update v (Suc i) (v ! i - (k * x1 ! i / m) * dt)"
  define y1 where "y1 = list_update y (Suc i)
                          (Arr [Num (x ! i + v ! i * dt), Num (v ! i + (- k * x ! i / m) * dt)])"
  have yi: "y ! i = Arr [Num (x ! i), Num (v ! i)]"
    using Suc.prems(6) by simp
  have x1i: "x1 ! i = x ! i"
    by (simp add: x1_def)
  have vec: "euler_steps SHO_deriv [2] time dt (Suc r) i y = euler_steps SHO_deriv [2] time dt r (Suc i) y1"
    using Suc.prems(5) by (simp add: yi SHO_deriv_vec2 add_nd_vec2 setitem_vec2 y1_def)
  have sca: "scalar_steps dt (Suc r) i (x, v) = scalar_steps dt r (Suc i) (x1, v1)"
    by (simp add: x1_def v1_def Let_def)
  have rel: "\<forall>j \<le> Suc i. y1 ! j = Arr [Num (x1 ! j), Num (v1 ! j)]"
  proof (intro allI impI)
    fix j assume "j \<le> Suc i"
    show "y1 ! j = Arr [Num (x1 ! j), Num (v1 ! j)]"
    proof (cases "j = Suc i")
      case True
      with Suc.prems(1-4) show ?thesis
        by (simp add: y1_def x1_def v1_def)
    next
      case False
      with \<open>j \<le> Suc i\<close> have "j \<le> i" by simp
      with False Suc.prems(6) show ?thesis
        by (simp add: y1_def x1_def v1_def)
    qed
  qed
  have "length x1 = L" "length v1 = L" "length y1 = L" "Suc i + r < L" "Suc i + r \<le> length time"
    using Suc.prems by (simp_all add: x1_def v1_def y1_def)
  from Suc.IH [OF this rel] vec sca show ?case by simp
qed

text \<open>
  Claim C9.  For every \<open>x0\<close>, \<open>v0\<close>, \<open>dt\<close> and \<open>N_steps\<close>, with an array \<open>time\<close> long
  enough for the vector loop to read \<open>time[i]\<close>, the loop over the two arrays \<open>x\<close> and
  \<open>v\<close> and the vector loop driven by \<open>SHO_deriv\<close> compute the same numbers: row \<open>i\<close>
  of \<open>y\<close> is \<open>[x[i], v[i]]\<close> for every index.  With \<open>N_steps \<le> 0\<close> both fail, with the
  same exception.
\<close>

theorem scalar_vector_agree:
  assumes "N_steps - 1 \<le> int (length time)"
  shows "if 0 < N_steps
         then \<exists>xs vs ys. scalar_loop x0 v0 dt N_steps = Inr (xs, vs)
                \<and> euler_loop SHO_deriv [2] (Arr [Num x0, Num v0]) time dt N_steps = Inr ys
                \<and> length xs = nat N_steps \<and> length vs = nat N_steps \<and> length ys = nat N_steps
                \<and> (\<forall>i < nat N_steps. ys ! i = Arr [Num (xs ! i), Num (vs ! i)])
         else \<exists>e. scalar_loop x0 v0 dt N_steps = Inl e
                \<and> euler_loop SHO_deriv [2] (Arr [Num x0, Num v0]) time dt N_steps = Inl e"
proof (cases "0 < N_steps")
  case False
  then show ?thesis by (simp add: scalar_loop_def euler_loop_def)
next
  case True
  define L where "L = nat N_steps"
  define x where "x = list_update (replicate L 0) 0 x0"
  define v where "v = list_update (replicate L 0) 0 v0"
  define y where "y = list_update (replicate L (zeros [2])) 0 (Arr [Num x0, Num v0])"
  have L: "0 < L" using True by (simp add: L_def)
  have "length x = L" "length v = L" "length y = L" "0 + (L - 1) < L" "0 + (L - 1) \<le> length time"
    "\<forall>j \<le> 0. y ! j = Arr [Num (x ! j), Num (v ! j)]"
    using L assms by (simp_all add: x_def v_def y_def L_def)
  from steps_agree [OF this, of dt] obtain y' x' v' where
    "euler_steps SHO_deriv [2] time dt (L - 1) 0 y = Inr y'"
    "scalar_steps dt (L - 1) 0 (x, v) = (x', v')"
    "length y' = L" "length x' = L" "length v' = L"
    "\<forall>j \<le> 0 + (L - 1). y' ! j = Arr [Num (x' ! j), Num (v' ! j)]"
    by blast
  moreover have "nat (N_steps - 1) = L - 1"
    by (simp add: L_def)
  ultimately show ?thesis
    using True by (auto simp: scalar_loop_def euler_loop_def setitem_vec2 L_def x_def v_def y_def)
qed

theorem scalar_vector_agree_witness:
  "(3::int) - 1 \<le> int (length [0, 1 / 2, 1 :: real])
   \<and> (\<exists>xs vs ys. scalar_loop 1 0 (1 / 2) 3 = Inr (xs, vs)
         \<and> euler_loop SHO_deriv [2] (Arr [Num 1, Num 0]) [0, 1 / 2, 1] (1 / 2) 3 = Inr ys
         \<and> length ys = 3 \<and> ys ! 2 = Arr [Num (xs ! 2), Num (vs ! 2)])"
  using scalar_vector_agree [of 3 "[0, 1 / 2, 1]" 1 0 "1 / 2"] by auto

section \<open>States of shape [2,2] and their slices\<close>

lemma has_shape_mat22:
  "has_shape [2, 2] Y \<longleftrightarrow> (\<exists>a b c d. Y = Arr [Arr [Num a, Num b], Arr [Num c, Num d]])"
  by (auto simp: has_shape_pair [of "[2]"] has_shape_vec2)

lemma less_two: "j < (2::nat) \<longleftrightarrow> j = 0 \<or> j = 1"
  by auto

lemma has_shape_column: "has_shape [2, 2] Y \<Longrightarrow> j < 2 \<Longrightarrow> has_shape [2] (column j Y)"
  by (auto simp: has_shape_mat22 less_two)

lemma column_plus:
  "has_shape [2, 2] A \<Longrightarrow> has_shape [2, 2] B \<Longrightarrow> j < 2 \<Longrightarrow>
   column j (plus_nd A B) = plus_nd (column j A) (column j B)"
  by (auto simp: has_shape_mat22 less_two)

lemma column_map_nd:
  "has_shape [2, 2] A \<Longrightarrow> j < 2 \<Longrightarrow> column j (map_nd f A) = map_nd f (column j A)"
  by (auto simp: has_shape_mat22 less_two)

lemma zeros_mat22: "zeros [2, 2] = Arr [Arr [Num 0, Num 0], Arr [Num 0, Num 0]]"
  by (simp add: zeros_def broadcast_to_def numeral_2_eq_2)

lemma zeros_vec2: "zeros [2] = Arr [Num 0, Num 0]"
  by (simp add: zeros_def broadcast_to_def numeral_2_eq_2)

lemma column_zeros: "j < 2 \<Longrightarrow> column j (zeros [2, 2]) = zeros [2]"
  by (auto simp: zeros_mat22 zeros_vec2 less_two)

lemma SHO_deriv_elementwise: "elementwise_trailing SHO_deriv"
  unfolding elementwise_trailing_def
proof (intro allI impI)
  fix Y t assume "has_shape [2, 2] Y"
  then obtain a b c d where Y: "Y = Arr [Arr [Num a, Num b], Arr [Num c, Num d]]"
    by (auto simp: has_shape_mat22)
  have "SHO_deriv Y t = Inr (Arr [Arr [Num c, Num d], Arr [Num (- k * a / m), Num (- k * b / m)]])"
    unfolding Y using SHO_deriv_pair [of "[2]" "Arr [Num a, Num b]" "Arr [Num c, Num d]" t] by simp
  then show "\<exists>D. SHO_deriv Y t = Inr D \<and> has_shape [2, 2] D \<and>
               (\<forall>j<2. SHO_deriv (column j Y) t = Inr (column j D))"
    by (auto simp: Y less_two SHO_deriv_vec2)
qed

lemma euler_steps_column:
  assumes "elementwise_trailing deriv" "j < 2"
  shows "i + r < length Y \<Longrightarrow> has_shape [2, 2] (Y ! i) \<Longrightarrow>
         euler_steps deriv [2] time dt r i (map (column j) Y)
           = map_sum id (map (column j)) (euler_steps deriv [2, 2] time dt r i Y)"
proof (induction r arbitrary: i Y)
  case 0
  then show ?case by simp
next
  case (Suc r)
  show ?case
  proof (cases "length time \<le> i")
    case True
    then show ?thesis by simp
  next
    case False
    from assms(1) Suc.prems(2) obtain D where D:
      "deriv (Y ! i) (time ! i) = Inr D" "has_shape [2, 2] D"
      "\<forall>j<2. deriv (column j (Y ! i)) (time ! i) = Inr (column j D)"
      unfolding elementwise_trailing_def by blast
    define V where "V = plus_nd (Y ! i) (map_nd (\<lambda>e. e * dt) D)"
    have hD: "has_shape [2, 2] (map_nd (\<lambda>e. e * dt) D)"
      using D(2) by (rule has_shape_map_nd)
    have hV: "has_shape [2, 2] V"
      unfolding V_def using Suc.prems(2) hD by (rule has_shape_plus)
    have big: "euler_steps deriv [2, 2] time dt (Suc r) i Y
                 = euler_steps deriv [2, 2] time dt r (Suc i) (list_update Y (Suc i) V)"
      using False D(1) add_nd_same [OF Suc.prems(2) hD] setitem_same [OF hV]
      by (simp add: V_def)
    have ci: "map (column j) Y ! i = column j (Y ! i)"
      using Suc.prems(1) by simp
    have cD: "deriv (column j (Y ! i)) (time ! i) = Inr (column j D)"
      using D(3) assms(2) by simp
    have h1: "has_shape [2] (column j (Y ! i))"
      using Suc.prems(2) assms(2) by (rule has_shape_column)
    have h2: "has_shape [2] (map_nd (\<lambda>e. e * dt) (column j D))"
      using D(2) assms(2) by (intro has_shape_map_nd has_shape_column)
    have cV: "plus_nd (column j (Y ! i)) (map_nd (\<lambda>e. e * dt) (column j D)) = column j V"
      unfolding V_def using Suc.prems(2) hD D(2) assms(2)
      by (simp add: column_plus column_map_nd)
    have hcV: "has_shape [2] (column j V)"
      using hV assms(2) by (rule has_shape_column)
    have small: "euler_steps deriv [2] time dt (Suc r) i (map (column j) Y)
                 = euler_steps deriv [2] time dt r (Suc i)
                     (map (column j) (list_update Y (Suc i) V))"
      using False cD add_nd_same [OF h1 h2] setitem_same [OF hcV]
      by (simp add: ci cV map_update)
    have "Suc i + r < length (list_update Y (Suc i) V)"
      "has_shape [2, 2] (list_update Y (Suc i) V ! Suc i)"
      using Suc.prems(1) hV by simp_all
    from Suc.IH [OF this] big small show ?thesis by simp
  qed
qed

text \<open>
  Claim C7.  For a right-hand side that works entry by entry over the last axis, the
  loop on a state of shape \<open>[2,2]\<close> and the loop on its slice \<open>j\<close> alone, a state of
  shape \<open>[2]\<close>, run with the same \<open>time\<close>, \<open>dt\<close> and \<open>N_steps\<close>, agree: the trajectory
  of the slice is the slice of every row of the trajectory, and where one loop raises
  the other raises the same exception.  \<open>SHO_deriv\<close> is such a right-hand side
  (\<open>SHO_deriv_elementwise\<close>).
\<close>

theorem batched_euler_columns:
  assumes "elementwise_trailing deriv" "has_shape [2, 2] Y0" "j < 2"
  shows "euler_loop deriv [2] (column j Y0) time dt N_steps
           = map_sum id (map (column j)) (euler_loop deriv [2, 2] Y0 time dt N_steps)"
proof (cases "0 < N_steps")
  case False
  then show ?thesis by (simp add: euler_loop_def)
next
  case True
  define Y where "Y = list_update (replicate (nat N_steps) (zeros [2, 2])) 0 Y0"
  have c: "map (column j) Y = list_update (replicate (nat N_steps) (zeros [2])) 0 (column j Y0)"
    using assms(3) by (simp add: Y_def map_update column_zeros)
  have "0 + nat (N_steps - 1) < length Y" "has_shape [2, 2] (Y ! 0)"
    using True assms(2) by (simp_all add: Y_def)
  from euler_steps_column [OF assms(1,3) this, of time dt]
  show ?thesis
    using True setitem_same [OF assms(2)] setitem_same [OF has_shape_column [OF assms(2,3)]]
    by (simp add: euler_loop_def c [symmetric] Y_def)
qed

theorem batched_euler_columns_witness:
  "elementwise_trailing SHO_deriv
   \<and> has_shape [2, 2] (Arr [Arr [Num 1, Num 0], Arr [Num 0, Num 1]]) \<and> (1::nat) < 2
   \<and> column 1 (Arr [Arr [Num 1, Num 0], Arr [Num 0, Num 1]]) = Arr [Num 0, Num 1]
   \<and> (\<exists>Ys. euler_loop SHO_deriv [2, 2] (Arr [Arr [Num 1, Num 0], Arr [Num 0, Num 1]])
               [0, 1 / 2, 1] (1 / 2) 3 = Inr Ys
          \<and> euler_loop SHO_deriv [2] (Arr [Num 0, Num 1]) [0, 1 / 2, 1] (1 / 2) 3
              = Inr (map (column 1) Ys))"
proof -
  have h2: "has_shape [2, 2] (Arr [Arr [Num 1, Num 0], Arr [Num 0, Num 1]])" by simp
  have h3: "(1::nat) < 2" by simp
  have c: "column 1 (Arr [Arr [Num 1, Num 0], Arr [Num 0, Num 1]]) = Arr [Num 0, Num 1]" by simp
  have pres: "\<forall>y t. has_shape [2, 2] y \<longrightarrow> (\<exists>d. SHO_deriv y t = Inr d \<and> has_shape [2, 2] d)"
    using SHO_deriv_shape [of "[2]"] by blast
  have len: "2 \<le> length [0, 1 / 2, 1 :: real]" by simp
  from euler_loop_run [OF h2 pres len, of "1 / 2"] obtain Ys where
    Ys: "euler_loop SHO_deriv [2, 2] (Arr [Arr [Num 1, Num 0], Arr [Num 0, Num 1]])
           [0, 1 / 2, 1] (1 / 2) 3 = Inr Ys"
    by auto
  from batched_euler_columns [OF SHO_deriv_elementwise h2 h3, of "[0, 1 / 2, 1]" "1 / 2" 3]
  have "euler_loop SHO_deriv [2] (Arr [Num 0, Num 1]) [0, 1 / 2, 1] (1 / 2) 3
          = Inr (map (column 1) Ys)"
    unfolding c Ys by simp
  with SHO_deriv_elementwise h2 h3 c Ys show ?thesis by blast
qed

section \<open>What the loop accepts\<close>










end
